theory Spec2Isabelle
  imports Main
begin

section \<open>Strings and the Python string primitives used by the scraper\<close>

text \<open>
  Python strings are modelled by HOL strings. A HOL character stands for the Unicode code
  point of the same number, so the model covers every Python string over U+0000..U+00FF
  (ASCII and Latin-1). Where a library function can leave that range (only the UTF-8
  decoding inside \<^verbatim>\<open>unquote\<close>), the model returns \<open>None\<close>.

  Exceptions are values: a function that can raise returns \<open>error + 'a\<close>.
\<close>

datatype error = ValueError | OSError | KeyError | IndexError

definition code :: "char \<Rightarrow> nat" where
  "code c = of_char c"

definition is_ascii :: "char \<Rightarrow> bool" where
  "is_ascii c = (code c < 128)"

definition is_upper :: "char \<Rightarrow> bool" where
  "is_upper c = (65 \<le> code c \<and> code c \<le> 90)"

definition is_lower :: "char \<Rightarrow> bool" where
  "is_lower c = (97 \<le> code c \<and> code c \<le> 122)"

definition is_digit :: "char \<Rightarrow> bool" where
  "is_digit c = (48 \<le> code c \<and> code c \<le> 57)"

definition is_ascii_alpha :: "char \<Rightarrow> bool" where
  "is_ascii_alpha c = (is_upper c \<or> is_lower c)"

definition is_hexdigit :: "char \<Rightarrow> bool" where
  "is_hexdigit c = (is_digit c \<or> (65 \<le> code c \<and> code c \<le> 70) \<or> (97 \<le> code c \<and> code c \<le> 102))"

text \<open>\<^verbatim>\<open>str.lower()\<close> on U+0000..U+00FF: A-Z, and the Latin-1 capitals U+00C0..U+00DE
  except the multiplication sign U+00D7, move up by 32.\<close>

definition lower_char :: "char \<Rightarrow> char" where
  "lower_char c =
     (if is_upper c \<or> (192 \<le> code c \<and> code c \<le> 222 \<and> code c \<noteq> 215)
      then char_of (code c + 32) else c)"

definition lower :: "string \<Rightarrow> string" where
  "lower s = map lower_char s"

text \<open>\<^verbatim>\<open>s.rstrip('/')\<close>, \<^verbatim>\<open>s.lstrip('/')\<close>, \<^verbatim>\<open>s.strip('/')\<close>: every leading or trailing
  occurrence is removed, not just one.\<close>

definition lstrip :: "char \<Rightarrow> string \<Rightarrow> string" where
  "lstrip c s = dropWhile (\<lambda>x. x = c) s"

definition rstrip :: "char \<Rightarrow> string \<Rightarrow> string" where
  "rstrip c s = rev (dropWhile (\<lambda>x. x = c) (rev s))"

definition strip :: "char \<Rightarrow> string \<Rightarrow> string" where
  "strip c s = rstrip c (lstrip c s)"

text \<open>\<^verbatim>\<open>sub in s\<close> for strings.\<close>

fun contains :: "string \<Rightarrow> string \<Rightarrow> bool" where
  "contains [] sub = (sub = [])"
| "contains (x # xs) sub = (take (length sub) (x # xs) = sub \<or> contains xs sub)"

text \<open>\<^verbatim>\<open>s.split(c)\<close> for a one-character separator: always at least one part.\<close>

fun split_on :: "char \<Rightarrow> string \<Rightarrow> string list" where
  "split_on c [] = [[]]"
| "split_on c (x # xs) =
     (if x = c then [] # split_on c xs
      else (case split_on c xs of [] \<Rightarrow> [[x]] | p # ps \<Rightarrow> (x # p) # ps))"

text \<open>\<^verbatim>\<open>s.split(c, 1)\<close> and \<^verbatim>\<open>s.partition(c)\<close> when \<open>c\<close> occurs in \<open>s\<close>: the text before the
  first occurrence and the text after it.\<close>

definition before :: "char \<Rightarrow> string \<Rightarrow> string" where
  "before c s = takeWhile (\<lambda>x. x \<noteq> c) s"

definition after :: "char \<Rightarrow> string \<Rightarrow> string" where
  "after c s = drop 1 (dropWhile (\<lambda>x. x \<noteq> c) s)"

section \<open>The URL library: urllib.parse of CPython 3.11\<close>

subsection \<open>Bracketed hosts (ipaddress)\<close>

definition dec_value :: "string \<Rightarrow> nat" where
  "dec_value s = foldl (\<lambda>a c. 10 * a + (code c - 48)) 0 s"

text \<open>\<^verbatim>\<open>IPv4Address._parse_octet\<close> succeeds.\<close>

definition octet_ok :: "string \<Rightarrow> bool" where
  "octet_ok s =
     (s \<noteq> [] \<and> list_all is_digit s \<and> length s \<le> 3 \<and>
      (s = ''0'' \<or> hd s \<noteq> CHR ''0'') \<and> dec_value s \<le> 255)"

text \<open>\<^verbatim>\<open>IPv4Address(s)\<close> succeeds.\<close>

definition ipv4_ok :: "string \<Rightarrow> bool" where
  "ipv4_ok s =
     (CHR ''/'' \<notin> set s \<and> s \<noteq> [] \<and>
      length (split_on CHR ''.'' s) = 4 \<and> list_all octet_ok (split_on CHR ''.'' s))"

text \<open>\<^verbatim>\<open>IPv6Address._parse_hextet\<close> succeeds (an empty hextet fails in \<^verbatim>\<open>int('', 16)\<close>).\<close>

definition hextet_ok :: "string \<Rightarrow> bool" where
  "hextet_ok s = (list_all is_hexdigit s \<and> length s \<le> 4 \<and> s \<noteq> [])"

text \<open>The indices \<open>1 \<le> i < len(parts) - 1\<close> whose part is empty: the candidates for
  \<^verbatim>\<open>skip_index\<close>.\<close>

definition inner_empty :: "string list \<Rightarrow> nat list" where
  "inner_empty parts = filter (\<lambda>i. parts ! i = []) [1 ..< length parts - 1]"

text \<open>\<^verbatim>\<open>IPv6Address._ip_int_from_string\<close> succeeds on the parts, after an IPv4 suffix has been
  replaced by two hextets.\<close>

definition ipv6_parts_ok :: "string list \<Rightarrow> bool" where
  "ipv6_parts_ok parts =
     (length parts \<le> 9 \<and>
      (case inner_empty parts of
         [] \<Rightarrow> length parts = 8 \<and> hd parts \<noteq> [] \<and> last parts \<noteq> [] \<and> list_all hextet_ok parts
       | [skip] \<Rightarrow>
           (let hi0 = skip; lo0 = length parts - skip - 1;
                hi = (if hd parts = [] then hi0 - 1 else hi0);
                lo = (if last parts = [] then lo0 - 1 else lo0)
            in (hd parts = [] \<longrightarrow> hi = 0) \<and> (last parts = [] \<longrightarrow> lo = 0) \<and>
               hi + lo < 8 \<and>
               list_all hextet_ok (take hi parts) \<and>
               list_all hextet_ok (drop (length parts - lo) parts))
       | _ \<Rightarrow> False))"

text \<open>\<^verbatim>\<open>IPv6Address(s)\<close> succeeds: no slash, a well-formed scope id if there is a percent
  sign, at least three colon-separated parts, a valid IPv4 address if the last part has a
  dot.\<close>

definition ipv6_ok :: "string \<Rightarrow> bool" where
  "ipv6_ok s =
     (CHR ''/'' \<notin> set s \<and>
      (CHR ''%'' \<in> set s \<longrightarrow> after CHR ''%'' s \<noteq> [] \<and> CHR ''%'' \<notin> set (after CHR ''%'' s)) \<and>
      (let addr = before CHR ''%'' s; parts = split_on CHR '':'' addr
       in addr \<noteq> [] \<and> 3 \<le> length parts \<and>
          (if CHR ''.'' \<in> set (last parts)
           then ipv4_ok (last parts) \<and> ipv6_parts_ok (butlast parts @ [''0'', ''0''])
           else ipv6_parts_ok parts)))"

text \<open>\<^verbatim>\<open>_check_bracketed_host\<close> returns without raising: an IPvFuture literal matching
  \<^verbatim>\<open>\Av[a-fA-F0-9]+\..+\Z\<close>, or a valid IPv6 address (an IPv4 address in brackets is
  refused).\<close>

definition check_bracketed_host :: "string \<Rightarrow> bool" where
  "check_bracketed_host h =
     (if take 1 h = ''v''
      then (let ds = takeWhile is_hexdigit (drop 1 h); r = dropWhile is_hexdigit (drop 1 h)
            in ds \<noteq> [] \<and> take 1 r = ''.'' \<and> drop 1 r \<noteq> [] \<and> CHR 0x0A \<notin> set (drop 1 r))
      else \<not> ipv4_ok h \<and> ipv6_ok h)"

subsection \<open>urlsplit and urlparse\<close>

definition uses_netloc :: "string list" where
  "uses_netloc = ['''', ''ftp'', ''http'', ''gopher'', ''nntp'', ''telnet'',
     ''imap'', ''wais'', ''file'', ''mms'', ''https'', ''shttp'',
     ''snews'', ''prospero'', ''rtsp'', ''rtsps'', ''rtspu'', ''rsync'',
     ''svn'', ''svn+ssh'', ''sftp'', ''nfs'', ''git'', ''git+ssh'',
     ''ws'', ''wss'']"

definition uses_params :: "string list" where
  "uses_params = ['''', ''ftp'', ''hdl'', ''prospero'', ''http'', ''imap'',
     ''https'', ''shttp'', ''rtsp'', ''rtsps'', ''rtspu'', ''sip'',
     ''sips'', ''mms'', ''sftp'', ''tel'']"

definition is_scheme_char :: "char \<Rightarrow> bool" where
  "is_scheme_char c = (is_ascii_alpha c \<or> is_digit c \<or> c \<in> set ''+-.'')"

text \<open>The characters U+0000..U+0020, stripped from the left of a URL.\<close>

definition is_c0_or_space :: "char \<Rightarrow> bool" where
  "is_c0_or_space c = (code c \<le> 32)"

text \<open>Tab, carriage return and line feed, removed anywhere in a URL.\<close>

definition is_unsafe :: "char \<Rightarrow> bool" where
  "is_unsafe c = (c = CHR 0x09 \<or> c = CHR 0x0D \<or> c = CHR 0x0A)"

text \<open>The scheme test of \<^verbatim>\<open>urlsplit\<close>: a colon not at index 0, an ASCII letter first, and
  only scheme characters before the colon.\<close>

definition split_scheme :: "string \<Rightarrow> string \<times> string" where
  "split_scheme url =
     (if CHR '':'' \<in> set url \<and> before CHR '':'' url \<noteq> [] \<and> is_ascii_alpha (hd url) \<and>
         list_all is_scheme_char (before CHR '':'' url)
      then (lower (before CHR '':'' url), after CHR '':'' url)
      else ([], url))"

definition is_netloc_delim :: "char \<Rightarrow> bool" where
  "is_netloc_delim c = (c = CHR ''/'' \<or> c = CHR ''?'' \<or> c = CHR ''#'')"

text \<open>\<^verbatim>\<open>_splitnetloc(url, 2)\<close>.\<close>

definition splitnetloc :: "string \<Rightarrow> string \<times> string" where
  "splitnetloc url =
     (takeWhile (\<lambda>c. \<not> is_netloc_delim c) (drop 2 url),
      dropWhile (\<lambda>c. \<not> is_netloc_delim c) (drop 2 url))"

text \<open>The two bracket tests of \<^verbatim>\<open>urlsplit\<close> pass: brackets come in pairs, and the text
  between the first \<open>[\<close> and the next \<open>]\<close> is a valid bracketed host.\<close>

definition netloc_brackets_ok :: "string \<Rightarrow> bool" where
  "netloc_brackets_ok nl =
     (if CHR ''['' \<in> set nl \<and> CHR '']'' \<in> set nl
      then check_bracketed_host (before CHR '']'' (after CHR ''['' nl))
      else CHR ''['' \<notin> set nl \<and> CHR '']'' \<notin> set nl)"

text \<open>
  \<^verbatim>\<open>urlsplit(url)\<close> returns (scheme, netloc, path, query, fragment) or raises ValueError.
  \<^verbatim>\<open>_checknetloc\<close> is left out: it raises only when the NFKC form of a non-ASCII netloc
  contains one of \<^verbatim>\<open>/?#@:\<close>, which no code point up to U+00FF produces.
\<close>

definition urlsplit :: "string \<Rightarrow> error + (string \<times> string \<times> string \<times> string \<times> string)" where
  "urlsplit url0 =
     (let url1 = filter (\<lambda>c. \<not> is_unsafe c) (dropWhile is_c0_or_space url0);
          (scheme, url2) = split_scheme url1;
          (netloc, url3) = (if take 2 url2 = ''//'' then splitnetloc url2 else ([], url2))
      in if \<not> netloc_brackets_ok netloc then Inl ValueError
         else
           (let (url4, fragment) =
                  (if CHR ''#'' \<in> set url3 then (before CHR ''#'' url3, after CHR ''#'' url3)
                   else (url3, []));
                (url5, query) =
                  (if CHR ''?'' \<in> set url4 then (before CHR ''?'' url4, after CHR ''?'' url4)
                   else (url4, []))
            in Inr (scheme, netloc, url5, query, fragment)))"

text \<open>
  \<^verbatim>\<open>_splitparams(url)\<close>: the parameters start at the first semicolon of the last path
  segment. \<open>last_segment url\<close> is the text after the last slash (all of \<open>url\<close> when it has
  no slash), so the index \<open>i\<close> of the source is the length of the rest plus the position of
  the first semicolon in the segment.
\<close>

definition last_segment :: "string \<Rightarrow> string" where
  "last_segment url = rev (takeWhile (\<lambda>c. c \<noteq> CHR ''/'') (rev url))"

definition splitparams :: "string \<Rightarrow> string \<times> string" where
  "splitparams url =
     (if CHR ''/'' \<in> set url
      then (if CHR '';'' \<notin> set (last_segment url) then (url, [])
            else (take (length url - length (last_segment url)) url
                    @ before CHR '';'' (last_segment url),
                  after CHR '';'' (last_segment url)))
      else (before CHR '';'' url, after CHR '';'' url))"

record parse_result =
  scheme :: string
  netloc :: string
  path :: string
  params :: string
  query :: string
  fragment :: string

definition urlparse :: "string \<Rightarrow> error + parse_result" where
  "urlparse url =
     (case urlsplit url of
        Inl e \<Rightarrow> Inl e
      | Inr (sch, nl, u, q, f) \<Rightarrow>
          (let (u', ps) = (if sch \<in> set uses_params \<and> CHR '';'' \<in> set u
                           then splitparams u else (u, []))
           in Inr \<lparr>scheme = sch, netloc = nl, path = u', params = ps,
                    query = q, fragment = f\<rparr>))"

subsection \<open>urlunsplit and urlunparse (geturl)\<close>

definition urlunsplit :: "string \<times> string \<times> string \<times> string \<times> string \<Rightarrow> string" where
  "urlunsplit c =
     (case c of (sch, nl, url, q, f) \<Rightarrow>
        (let url1 = (if nl \<noteq> [] \<or> (sch \<noteq> [] \<and> sch \<in> set uses_netloc) \<or> take 2 url = ''//''
                     then ''//'' @ nl @ (if url \<noteq> [] \<and> take 1 url \<noteq> ''/'' then ''/'' @ url else url)
                     else url);
             url2 = (if sch \<noteq> [] then sch @ '':'' @ url1 else url1);
             url3 = (if q \<noteq> [] then url2 @ ''?'' @ q else url2)
         in (if f \<noteq> [] then url3 @ ''#'' @ f else url3)))"

definition urlunparse :: "parse_result \<Rightarrow> string" where
  "urlunparse p =
     urlunsplit (scheme p, netloc p,
                 (if params p \<noteq> [] then path p @ '';'' @ params p else path p),
                 query p, fragment p)"

subsection \<open>unquote\<close>

definition hex_value :: "char \<Rightarrow> nat" where
  "hex_value c =
     (if is_digit c then code c - 48
      else if code c \<le> 70 then code c - 55 else code c - 87)"

text \<open>One item of \<^verbatim>\<open>string.split('%')\<close> after the first: two hex digits become a byte,
  anything else keeps its percent sign.\<close>

definition unquote_item :: "string \<Rightarrow> string" where
  "unquote_item item =
     (case item of
        a # b # rest \<Rightarrow>
          (if is_hexdigit a \<and> is_hexdigit b
           then char_of (16 * hex_value a + hex_value b) # rest
           else CHR ''%'' # item)
      | _ \<Rightarrow> CHR ''%'' # item)"

definition unquote_to_bytes :: "string \<Rightarrow> string" where
  "unquote_to_bytes s =
     (case split_on CHR ''%'' s of
        [] \<Rightarrow> s
      | b # items \<Rightarrow> b @ concat (map unquote_item items))"

text \<open>
  \<^verbatim>\<open>bytes.decode('utf-8', 'replace')\<close>, as far as the result stays within U+0000..U+00FF:
  an ASCII byte is itself, \<open>C2 xx\<close> and \<open>C3 xx\<close> are the two-byte forms of U+0080..U+00FF.
  Every other byte sequence decodes to a code point above U+00FF (a longer form, or U+FFFD
  for an invalid one): the model has no character for it and returns \<open>None\<close>.
\<close>

fun utf8_decode :: "string \<Rightarrow> string option" where
  "utf8_decode [] = Some []"
| "utf8_decode [b] = (if is_ascii b then Some [b] else None)"
| "utf8_decode (b # c # bs) =
     (if is_ascii b then map_option (\<lambda>r. b # r) (utf8_decode (c # bs))
      else if (code b = 194 \<or> code b = 195) \<and> 128 \<le> code c \<and> code c \<le> 191
      then map_option (\<lambda>r. char_of (code c + (code b - 194) * 64) # r) (utf8_decode bs)
      else None)"

text \<open>The maximal runs of ASCII and of non-ASCII characters, as \<^verbatim>\<open>_asciire.split\<close> cuts
  them; the flag says whether the run is ASCII.\<close>

fun ascii_runs :: "string \<Rightarrow> (bool \<times> string) list" where
  "ascii_runs [] = []"
| "ascii_runs (c # cs) =
     (case ascii_runs cs of
        [] \<Rightarrow> [(is_ascii c, [c])]
      | (b, r) # rest \<Rightarrow>
          (if b = is_ascii c then (b, c # r) # rest
           else (is_ascii c, [c]) # (b, r) # rest))"

fun unquote_runs :: "(bool \<times> string) list \<Rightarrow> string option" where
  "unquote_runs [] = Some []"
| "unquote_runs ((b, r) # rest) =
     (case (if b then utf8_decode (unquote_to_bytes r) else Some r) of
        None \<Rightarrow> None
      | Some d \<Rightarrow> map_option (\<lambda>t. d @ t) (unquote_runs rest))"

definition unquote :: "string \<Rightarrow> string option" where
  "unquote s = (if CHR ''%'' \<notin> set s then Some s else unquote_runs (ascii_runs s))"

section \<open>The scraper's pure functions\<close>

text \<open>\<^verbatim>\<open>WebsiteScraper.clean_url\<close>: parse, blank the query and the fragment, reassemble,
  strip trailing slashes.\<close>

definition clean_url :: "string \<Rightarrow> error + string" where
  "clean_url url =
     (case urlparse url of
        Inl e \<Rightarrow> Inl e
      | Inr parsed \<Rightarrow>
          Inr (rstrip CHR ''/'' (urlunparse (parsed\<lparr>query := [], fragment := []\<rparr>))))"

text \<open>\<^verbatim>\<open>WebsiteScraper.is_valid_url\<close>; \<open>base_url\<close> is the scraper's field.\<close>

definition is_valid_url :: "string \<Rightarrow> string \<Rightarrow> error + bool" where
  "is_valid_url base_url url =
     (if url = [] then Inr False
      else (case urlparse base_url of
              Inl e \<Rightarrow> Inl e
            | Inr b \<Rightarrow>
                (case urlparse url of
                   Inl e \<Rightarrow> Inl e
                 | Inr u \<Rightarrow> Inr (netloc b = netloc u))))"

text \<open>The character class \<^verbatim>\<open>[<>:"/\\|?*]\<close> of \<^verbatim>\<open>re.sub\<close> in \<^verbatim>\<open>get_page_path\<close>.\<close>

definition is_reserved :: "char \<Rightarrow> bool" where
  "is_reserved c =
     (c = CHR ''<'' \<or> c = CHR ''>'' \<or> c = CHR '':'' \<or> c = CHR 0x22 \<or> c = CHR ''/'' \<or>
      c = CHR 0x5C \<or> c = CHR ''|'' \<or> c = CHR ''?'' \<or> c = CHR ''*'')"

definition sub_reserved :: "string \<Rightarrow> string" where
  "sub_reserved s = map (\<lambda>c. if is_reserved c then CHR ''-'' else c) s"

text \<open>\<^verbatim>\<open>WebsiteScraper.get_page_path\<close>. The inner \<open>None\<close> is the limit of the alphabet in
  \<open>unquote\<close>, not a Python value.\<close>

definition get_page_path :: "string \<Rightarrow> error + string option" where
  "get_page_path url =
     (case urlparse url of
        Inl e \<Rightarrow> Inl e
      | Inr parsed \<Rightarrow>
          (let p = strip CHR ''/'' (path parsed)
           in if p = [] then Inr (Some ''home'')
              else Inr (map_option (\<lambda>d. lower (sub_reserved d)) (unquote p))))"

subsection \<open>Page classification\<close>

text \<open>
  The parsed document, as far as the scraper reads it. The HTML parser is outside the
  model, so a document is given by the answers it returns:
  \<^item> the four \<^verbatim>\<open>soup.find\<close> queries of \<^verbatim>\<open>get_page_type\<close> (a found tag is truthy);
  \<^item> \<^verbatim>\<open>soup.title.string\<close>, or \<open>None\<close> without a title;
  \<^item> for every \<^verbatim>\<open>a\<close> element with a non-empty \<^verbatim>\<open>href\<close>, in document order:
    \<^verbatim>\<open>urljoin(url, href)\<close>, the anchor text and the \<^verbatim>\<open>title\<close> attribute.
\<close>

record soup =
  div_product :: bool
  div_product_gallery :: bool
  ul_products :: bool
  div_products_header :: bool
  title :: "string option"
  anchors :: "(string \<times> string \<times> string) list"

datatype page_type = Product | Category | Content

text \<open>\<^verbatim>\<open>WebsiteScraper.get_page_type\<close>: the product test comes first, then the category
  test, then the default.\<close>

definition get_page_type :: "string \<Rightarrow> 'a soup_scheme \<Rightarrow> error + page_type" where
  "get_page_type url sp =
     (case urlparse url of
        Inl e \<Rightarrow> Inl e
      | Inr parsed \<Rightarrow>
          (let url_path = lower (path parsed)
           in if contains url_path ''product'' \<or> div_product sp \<or> div_product_gallery sp
              then Inr Product
              else if contains url_path ''category'' \<or> contains url_path ''shop'' \<or>
                      ul_products sp \<or> div_products_header sp
              then Inr Category
              else Inr Content))"

section \<open>The crawl state\<close>

text \<open>
  A node of \<^verbatim>\<open>page_hierarchy\<close> and a page record. Of \<^verbatim>\<open>page_data\<close> the model keeps the
  fields the crawl reads or that identify the page; the metadata other than the title,
  the structured data, the images and the text file name are written to disk and never
  read again.
\<close>

record node =
  node_path :: "string option"
  node_title :: "string option"
  node_type :: page_type
  children :: "string list"

record link =
  link_url :: string
  link_text :: string
  link_title :: string

record page_data =
  pd_url :: string
  original_url :: string
  pd_path :: "string option"
  pd_type :: page_type
  pd_title :: "string option"
  links :: "link list"

record scraper =
  base_url :: string
  visited_urls :: "string set"
  page_hierarchy :: "string \<rightharpoonup> node"
  product_pages :: "string set"
  category_pages :: "string set"
  content_pages :: "string set"

text \<open>\<^verbatim>\<open>WebsiteScraper.__init__\<close>.\<close>

definition init_scraper :: "string \<Rightarrow> scraper" where
  "init_scraper url =
     \<lparr>base_url = rstrip CHR ''/'' url, visited_urls = {}, page_hierarchy = Map.empty,
      product_pages = {}, category_pages = {}, content_pages = {}\<rparr>"

text \<open>
  What the outside world answers to one call of \<^verbatim>\<open>scrape_page\<close>: either something inside
  the \<^verbatim>\<open>try\<close> block raised (the request, the parser, \<^verbatim>\<open>urljoin\<close> or a file write; all of
  them come before the first update of the hierarchy), or the request returned a status
  code and a document.
\<close>

datatype fetch_outcome = Raised | Got int soup

text \<open>The link loop of \<^verbatim>\<open>scrape_page\<close>: same-domain anchors, normalised, in document
  order. \<^verbatim>\<open>is_valid_url\<close> and \<^verbatim>\<open>clean_url\<close> can raise.\<close>

fun collect_links :: "string \<Rightarrow> (string \<times> string \<times> string) list \<Rightarrow> error + link list" where
  "collect_links b [] = Inr []"
| "collect_links b ((absolute_url, txt, ttl) # rest) =
     (case is_valid_url b absolute_url of
        Inl e \<Rightarrow> Inl e
      | Inr valid \<Rightarrow>
          (if valid
           then (case clean_url absolute_url of
                   Inl e \<Rightarrow> Inl e
                 | Inr clean_link \<Rightarrow>
                     (case collect_links b rest of
                        Inl e \<Rightarrow> Inl e
                      | Inr ls \<Rightarrow>
                          Inr (\<lparr>link_url = clean_link, link_text = txt, link_title = ttl\<rparr> # ls)))
           else collect_links b rest))"

text \<open>The last step of \<^verbatim>\<open>scrape_page\<close> ("Update hierarchy and page sets"): a new node
  without children, and the URL in the set of its page type.\<close>

definition register_page ::
  "scraper \<Rightarrow> string \<Rightarrow> string option \<Rightarrow> string option \<Rightarrow> page_type \<Rightarrow> scraper" where
  "register_page s c pth ttl pt =
     s\<lparr>page_hierarchy :=
         (page_hierarchy s)(c \<mapsto>
            \<lparr>node_path = pth, node_title = ttl, node_type = pt, children = []\<rparr>),
       product_pages := (if pt = Product then insert c (product_pages s) else product_pages s),
       category_pages := (if pt = Category then insert c (category_pages s) else category_pages s),
       content_pages := (if pt \<noteq> Product \<and> pt \<noteq> Category then insert c (content_pages s)
                         else content_pages s)\<rparr>"

text \<open>
  The \<^verbatim>\<open>try\<close> block of \<^verbatim>\<open>scrape_page\<close> with its \<^verbatim>\<open>except Exception\<close>: on a status other than
  200 and on every exception the result is \<open>([], None)\<close> and the scraper is as it was when
  the block was entered.
\<close>

definition try_block ::
  "scraper \<Rightarrow> string \<Rightarrow> string \<Rightarrow> string option \<Rightarrow> fetch_outcome
     \<Rightarrow> string list \<times> page_data option \<times> scraper" where
  "try_block s1 url c pth outcome =
     (case outcome of
        Raised \<Rightarrow> ([], None, s1)
      | Got status sp \<Rightarrow>
          (if status \<noteq> 200 then ([], None, s1)
           else
             (case get_page_type c sp of
                Inl e \<Rightarrow> ([], None, s1)
              | Inr pt \<Rightarrow>
                  (case collect_links (base_url s1) (anchors sp) of
                     Inl e \<Rightarrow> ([], None, s1)
                   | Inr link_data \<Rightarrow>
                       (map link_url link_data,
                        Some \<lparr>pd_url = c, original_url = url, pd_path = pth, pd_type = pt,
                              pd_title = title sp, links = link_data\<rparr>,
                        register_page s1 c pth (title sp) pt)))))"

text \<open>
  \<^verbatim>\<open>WebsiteScraper.scrape_page\<close>. \<open>dirs_ok\<close> says whether \<^verbatim>\<open>os.makedirs\<close> in
  \<^verbatim>\<open>create_page_directory\<close> succeeds; that call and the two before it are outside the
  \<^verbatim>\<open>try\<close> block, so their exceptions leave the function. The result is the link list, the
  page record and the scraper after the call.
\<close>

definition scrape_page ::
  "scraper \<Rightarrow> string \<Rightarrow> bool \<Rightarrow> fetch_outcome \<Rightarrow> error + (string list \<times> page_data option \<times> scraper)" where
  "scrape_page s url dirs_ok outcome =
     (case clean_url url of
        Inl e \<Rightarrow> Inl e
      | Inr c \<Rightarrow>
          (if c \<in> visited_urls s then Inr ([], None, s)
           else
             (case is_valid_url (base_url s) c of
                Inl e \<Rightarrow> Inl e
              | Inr valid \<Rightarrow>
                  (if \<not> valid then Inr ([], None, s)
                   else
                     (case get_page_path c of
                        Inl e \<Rightarrow> Inl e
                      | Inr pth \<Rightarrow>
                          (if \<not> dirs_ok then Inl OSError
                           else Inr (try_block (s\<lparr>visited_urls := insert c (visited_urls s)\<rparr>)
                                       url c pth outcome)))))))"

text \<open>\<^verbatim>\<open>WebsiteScraper.save_site_hierarchy\<close>: the contents of \<^verbatim>\<open>site_hierarchy.json\<close> and
  the three lists of \<^verbatim>\<open>page_listings.json\<close> (as sets: \<^verbatim>\<open>list(set)\<close> has no fixed order).\<close>

record site_files =
  site_hierarchy :: "string \<rightharpoonup> node"
  products :: "string set"
  categories :: "string set"
  content :: "string set"

definition save_site_hierarchy :: "scraper \<Rightarrow> site_files" where
  "save_site_hierarchy s =
     \<lparr>site_hierarchy = page_hierarchy s, products = product_pages s,
      categories = category_pages s, content = content_pages s\<rparr>"

section \<open>The crawl loop\<close>

text \<open>The variables of \<^verbatim>\<open>scrape_website\<close> and the scraper object.\<close>

record crawl =
  to_visit :: "string list"
  pages_scraped :: nat
  scraper_of :: scraper

text \<open>The world of a crawl: what \<^verbatim>\<open>os.makedirs\<close> and the request answer in iteration \<open>n\<close>
  for the URL taken from the queue. The answers may change from one iteration to the
  next.\<close>

record world =
  makedirs_ok :: "nat \<Rightarrow> string \<Rightarrow> bool"
  fetch :: "nat \<Rightarrow> string \<Rightarrow> fetch_outcome"

text \<open>The loop over \<^verbatim>\<open>page_data['links']\<close>: a link whose target is a key of the hierarchy
  is appended to the children of the current page.\<close>

fun add_children :: "string \<Rightarrow> link list \<Rightarrow> scraper \<Rightarrow> error + scraper" where
  "add_children current_clean [] s = Inr s"
| "add_children current_clean (l # ls) s =
     (case clean_url (link_url l) of
        Inl e \<Rightarrow> Inl e
      | Inr link_clean \<Rightarrow>
          (if link_clean \<in> dom (page_hierarchy s)
           then (case page_hierarchy s current_clean of
                   None \<Rightarrow> Inl KeyError
                 | Some nd \<Rightarrow>
                     add_children current_clean ls
                       (s\<lparr>page_hierarchy :=
                            (page_hierarchy s)(current_clean \<mapsto>
                               nd\<lparr>children := children nd @ [link_clean]\<rparr>)\<rparr>))
           else add_children current_clean ls s))"

text \<open>The loop over \<^verbatim>\<open>new_links\<close>: a link whose normal form is not visited goes to the
  tail of the queue.\<close>

fun enqueue :: "string set \<Rightarrow> string list \<Rightarrow> string list \<Rightarrow> error + string list" where
  "enqueue visited [] queue = Inr queue"
| "enqueue visited (l # ls) queue =
     (case clean_url l of
        Inl e \<Rightarrow> Inl e
      | Inr c \<Rightarrow> enqueue visited ls (if c \<notin> visited then queue @ [l] else queue))"

text \<open>The loop condition of \<^verbatim>\<open>scrape_website\<close>.\<close>

definition loop_cond :: "int option \<Rightarrow> crawl \<Rightarrow> bool" where
  "loop_cond max_pages st =
     (to_visit st \<noteq> [] \<and>
      (case max_pages of None \<Rightarrow> True | Some n \<Rightarrow> int (pages_scraped st) < n))"

text \<open>One iteration of the loop.\<close>

definition crawl_body :: "world \<Rightarrow> crawl \<Rightarrow> error + crawl" where
  "crawl_body w st =
     (case to_visit st of
        [] \<Rightarrow> Inl IndexError
      | current_url # queue \<Rightarrow>
          (case scrape_page (scraper_of st) current_url
                  (makedirs_ok w (pages_scraped st) current_url)
                  (fetch w (pages_scraped st) current_url) of
             Inl e \<Rightarrow> Inl e
           | Inr (new_links, page, s1) \<Rightarrow>
               (case (case page of
                        None \<Rightarrow> Inr s1
                      | Some pd \<Rightarrow>
                          (case clean_url current_url of
                             Inl e \<Rightarrow> Inl e
                           | Inr current_clean \<Rightarrow> add_children current_clean (links pd) s1)) of
                  Inl e \<Rightarrow> Inl e
                | Inr s2 \<Rightarrow>
                    (case enqueue (visited_urls s2) new_links queue of
                       Inl e \<Rightarrow> Inl e
                     | Inr queue' \<Rightarrow>
                         Inr \<lparr>to_visit = queue', pages_scraped = pages_scraped st + 1,
                              scraper_of = s2\<rparr>))))"

text \<open>The loop. Without a budget it may run forever on an endless site: \<open>None\<close> is a
  crawl that does not return, \<open>Some (Inl e)\<close> one that an exception ends.\<close>

partial_function (option) crawl_loop :: "world \<Rightarrow> int option \<Rightarrow> crawl \<Rightarrow> (error + crawl) option" where
  "crawl_loop w max_pages st =
     (if loop_cond max_pages st
      then (case crawl_body w st of
              Inl e \<Rightarrow> Some (Inl e)
            | Inr st' \<Rightarrow> crawl_loop w max_pages st')
      else Some (Inr st))"

declare crawl_loop.simps [code]

definition start :: "scraper \<Rightarrow> crawl" where
  "start s = \<lparr>to_visit = [base_url s], pages_scraped = 0, scraper_of = s\<rparr>"

text \<open>\<^verbatim>\<open>WebsiteScraper.scrape_website\<close>: the loop, then the two summary files.\<close>

definition scrape_website :: "world \<Rightarrow> scraper \<Rightarrow> int option \<Rightarrow> (error + site_files) option" where
  "scrape_website w s max_pages =
     (case crawl_loop w max_pages (start s) of
        None \<Rightarrow> None
      | Some (Inl e) \<Rightarrow> Some (Inl e)
      | Some (Inr st) \<Rightarrow> Some (Inr (save_site_hierarchy (scraper_of st))))"

text \<open>The states of the loop variables at the head of the loop, with the number of
  iterations completed so far, for a crawl started on a fresh scraper.\<close>

inductive reach :: "world \<Rightarrow> int option \<Rightarrow> string \<Rightarrow> nat \<Rightarrow> crawl \<Rightarrow> bool" for w max_pages url where
  reach_start: "reach w max_pages url 0 (start (init_scraper url))"
| reach_step: "reach w max_pages url k st \<Longrightarrow> loop_cond max_pages st \<Longrightarrow>
     crawl_body w st = Inr st' \<Longrightarrow> reach w max_pages url (Suc k) st'"

section \<open>The specification's wording of the two URL functions\<close>

text \<open>
  \<open>normalize_spec\<close> follows the specification: parse, drop query string and fragment, strip
  one trailing slash. \<open>toPathKey_spec\<close> follows the specification: the path component, and
  if it is empty the key is "home", else percent-decode, replace the reserved characters,
  lower-case.
\<close>

definition strip_one_slash :: "string \<Rightarrow> string" where
  "strip_one_slash s = (if s \<noteq> [] \<and> last s = CHR ''/'' then butlast s else s)"

definition normalize_spec :: "string \<Rightarrow> error + string" where
  "normalize_spec url =
     (case urlparse url of
        Inl e \<Rightarrow> Inl e
      | Inr parsed \<Rightarrow>
          Inr (strip_one_slash (urlunparse (parsed\<lparr>query := [], fragment := []\<rparr>))))"



section \<open>Invariants and a small site for the examples\<close>

definition both_markers :: soup where
  "both_markers = \<lparr>div_product = True, div_product_gallery = False, ul_products = True,
     div_products_header = False, title = None, anchors = []\<rparr>"

text \<open>Invariants of the scraper object.\<close>

definition partitioned :: "scraper \<Rightarrow> bool" where
  "partitioned s =
     (product_pages s \<union> category_pages s \<union> content_pages s = dom (page_hierarchy s) \<and>
      product_pages s \<inter> category_pages s = {} \<and>
      product_pages s \<inter> content_pages s = {} \<and>
      category_pages s \<inter> content_pages s = {})"

definition hierarchy_visited :: "scraper \<Rightarrow> bool" where
  "hierarchy_visited s = (dom (page_hierarchy s) \<subseteq> visited_urls s)"

definition children_visited :: "scraper \<Rightarrow> bool" where
  "children_visited s =
     (\<forall>u nd. page_hierarchy s u = Some nd \<longrightarrow> set (children nd) \<subseteq> visited_urls s)"

definition scraper_inv :: "scraper \<Rightarrow> bool" where
  "scraper_inv s = (partitioned s \<and> hierarchy_visited s \<and> children_visited s)"

text \<open>What the link loop of the crawl changes: only children lists, only by appending,
  only at the current page, and only targets that are keys of the hierarchy.\<close>

definition appended :: "string \<Rightarrow> scraper \<Rightarrow> scraper \<Rightarrow> bool" where
  "appended cc s s' =
     (visited_urls s' = visited_urls s \<and> base_url s' = base_url s \<and>
      product_pages s' = product_pages s \<and> category_pages s' = category_pages s \<and>
      content_pages s' = content_pages s \<and>
      dom (page_hierarchy s') = dom (page_hierarchy s) \<and>
      (\<forall>u nd'. page_hierarchy s' u = Some nd' \<longrightarrow>
         (\<exists>nd new. page_hierarchy s u = Some nd \<and> children nd' = children nd @ new \<and>
            set new \<subseteq> dom (page_hierarchy s) \<and> (new \<noteq> [] \<longrightarrow> u = cc))))"

text \<open>A small site for the examples: a home page, a shop page and a dead link.\<close>

definition home_page :: soup where
  "home_page = \<lparr>div_product = False, div_product_gallery = False, ul_products = False,
     div_products_header = False, title = Some ''Home'',
     anchors = [(''https://ex.com/shop'', ''Shop'', []), (''https://ex.com/'', ''Home'', []),
                (''https://other.org/x'', ''Other'', [])]\<rparr>"

definition shop_page :: soup where
  "shop_page = \<lparr>div_product = False, div_product_gallery = False, ul_products = False,
     div_products_header = False, title = Some ''Shop'',
     anchors = [(''https://ex.com/'', ''Home'', []), (''https://ex.com/missing'', ''Gone'', [])]\<rparr>"

definition site :: world where
  "site = \<lparr>makedirs_ok = (\<lambda>n u. True),
            fetch = (\<lambda>n u. if u = ''https://ex.com'' then Got 200 home_page
                             else if u = ''https://ex.com/shop'' then Got 200 shop_page
                             else Got 404 home_page)\<rparr>"

definition home_node :: node where
  "home_node = \<lparr>node_path = Some ''home'', node_title = Some ''Home'', node_type = Content,
                 children = [''https://ex.com'']\<rparr>"

definition shop_node :: node where
  "shop_node = \<lparr>node_path = Some ''shop'', node_title = Some ''Shop'', node_type = Category,
                 children = [''https://ex.com'']\<rparr>"

definition crawl1 :: crawl where
  "crawl1 = \<lparr>to_visit = [''https://ex.com/shop''], pages_scraped = 1,
     scraper_of = \<lparr>base_url = ''https://ex.com'', visited_urls = {''https://ex.com''},
        page_hierarchy = [''https://ex.com'' \<mapsto> home_node],
        product_pages = {}, category_pages = {}, content_pages = {''https://ex.com''}\<rparr>\<rparr>"

definition crawl2 :: crawl where
  "crawl2 = \<lparr>to_visit = [''https://ex.com/missing''], pages_scraped = 2,
     scraper_of = \<lparr>base_url = ''https://ex.com'',
        visited_urls = {''https://ex.com/shop'', ''https://ex.com''},
        page_hierarchy = [''https://ex.com'' \<mapsto> home_node, ''https://ex.com/shop'' \<mapsto> shop_node],
        product_pages = {}, category_pages = {''https://ex.com/shop''},
        content_pages = {''https://ex.com''}\<rparr>\<rparr>"

definition crawl3 :: crawl where
  "crawl3 = \<lparr>to_visit = [], pages_scraped = 3,
     scraper_of = \<lparr>base_url = ''https://ex.com'',
        visited_urls = {''https://ex.com/missing'', ''https://ex.com/shop'', ''https://ex.com''},
        page_hierarchy = [''https://ex.com'' \<mapsto> home_node, ''https://ex.com/shop'' \<mapsto> shop_node],
        product_pages = {}, category_pages = {''https://ex.com/shop''},
        content_pages = {''https://ex.com''}\<rparr>\<rparr>"

definition shop_scraped :: scraper where
  "shop_scraped = \<lparr>base_url = ''https://ex.com'',
        visited_urls = {''https://ex.com/shop'', ''https://ex.com''},
        page_hierarchy = [''https://ex.com'' \<mapsto> home_node,
           ''https://ex.com/shop'' \<mapsto> shop_node\<lparr>children := []\<rparr>],
        product_pages = {}, category_pages = {''https://ex.com/shop''},
        content_pages = {''https://ex.com''}\<rparr>"

definition shop_record :: page_data where
  "shop_record = \<lparr>pd_url = ''https://ex.com/shop'', original_url = ''https://ex.com/shop'',
     pd_path = Some ''shop'', pd_type = Category, pd_title = Some ''Shop'',
     links = [\<lparr>link_url = ''https://ex.com'', link_text = ''Home'', link_title = []\<rparr>,
          \<lparr>link_url = ''https://ex.com/missing'', link_text = ''Gone'', link_title = []\<rparr>]\<rparr>"








section \<open>Properties\<close>

lemma set_before: "set (before c s) \<subseteq> set s"
  unfolding before_def by (auto dest: set_takeWhileD)

lemma set_after: "set (after c s) \<subseteq> set s"
  unfolding after_def by (auto dest!: in_set_dropD set_dropWhileD)

lemma before_no_sep: "c \<notin> set (before c s)"
  unfolding before_def by (auto dest: set_takeWhileD)

lemma set_rstrip: "set (rstrip c s) \<subseteq> set s"
  unfolding rstrip_def by (auto dest: set_dropWhileD)

lemma rstrip_no_trailing: "rstrip c s \<noteq> t @ [c]"
proof
  assume "rstrip c s = t @ [c]"
  then have "dropWhile (\<lambda>x. x = c) (rev s) = c # rev t"
    unfolding rstrip_def by (metis rev.simps(2) rev_swap)
  then show False
    by (metis (mono_tags, lifting) hd_dropWhile list.sel(1) list.distinct(1))
qed

lemma code_lower_char:
  "code (lower_char c) =
     (if is_upper c \<or> (192 \<le> code c \<and> code c \<le> 222 \<and> code c \<noteq> 215) then code c + 32 else code c)"
  unfolding lower_char_def code_def is_upper_def by auto





text \<open>Characters of the scheme.\<close>

lemma scheme_char_code:
  "is_scheme_char c \<Longrightarrow> code c \<in> {43, 45, 46} \<union> {48..57} \<union> {65..90} \<union> {97..122}"
  unfolding is_scheme_char_def is_ascii_alpha_def is_upper_def is_lower_def is_digit_def code_def
  by auto

lemma lower_scheme_char_code:
  "is_scheme_char c \<Longrightarrow> code (lower_char c) \<in> {43, 45, 46} \<union> {48..57} \<union> {97..122}"
  using scheme_char_code[of c] unfolding code_lower_char is_upper_def by auto

lemma code_delims: "code CHR ''?'' = 63" "code CHR ''#'' = 35" "code CHR ''/'' = 47" "code CHR '':'' = 58" "code CHR '';'' = 59"
  unfolding code_def by simp_all

lemma split_scheme_fst_chars:
  assumes "c \<in> set (fst (split_scheme u))"
  shows "code c \<in> {43, 45, 46} \<union> {48..57} \<union> {97..122}"
proof -
  from assms obtain d where d: "d \<in> set (before CHR '':'' u)" "c = lower_char d"
    and all: "list_all is_scheme_char (before CHR '':'' u)"
    unfolding split_scheme_def lower_def by (auto split: if_splits)
  from all d(1) have "is_scheme_char d" by (simp add: list_all_iff)
  then show ?thesis using lower_scheme_char_code d(2) by simp
qed


lemma splitnetloc_fst_no_delim: "c \<in> set (fst (splitnetloc u)) \<Longrightarrow> \<not> is_netloc_delim c"
  unfolding splitnetloc_def by (auto dest: set_takeWhileD)


text \<open>The components of a parse.\<close>

lemma urlsplit_components:
  assumes "urlsplit u = Inr (sch, nl, p, q, f)"
  shows "\<forall>c\<in>set sch. code c \<in> {43, 45, 46} \<union> {48..57} \<union> {97..122}"
    and "\<forall>c\<in>set nl. \<not> is_netloc_delim c"
    and "CHR ''?'' \<notin> set p" and "CHR ''#'' \<notin> set p"
proof -
  define url1 where "url1 = filter (\<lambda>c. \<not> is_unsafe c) (dropWhile is_c0_or_space u)"
  define url2 where "url2 = snd (split_scheme url1)"
  define url3 where "url3 = (if take 2 url2 = ''//'' then snd (splitnetloc url2) else url2)"
  define url4 where "url4 = (if CHR ''#'' \<in> set url3 then before CHR ''#'' url3 else url3)"
  from assms have sch: "sch = fst (split_scheme url1)"
    and nl: "nl = (if take 2 url2 = ''//'' then fst (splitnetloc url2) else [])"
    and p: "p = (if CHR ''?'' \<in> set url4 then before CHR ''?'' url4 else url4)"
    unfolding urlsplit_def url1_def url2_def url3_def url4_def
    by (auto simp: Let_def split: prod.splits if_splits)
  show "\<forall>c\<in>set sch. code c \<in> {43, 45, 46} \<union> {48..57} \<union> {97..122}"
    using split_scheme_fst_chars sch by blast
  show "\<forall>c\<in>set nl. \<not> is_netloc_delim c"
    using splitnetloc_fst_no_delim nl by (auto split: if_splits)
  have h4: "CHR ''#'' \<notin> set url4"
    unfolding url4_def using before_no_sep by auto
  show "CHR ''?'' \<notin> set p" unfolding p using before_no_sep by auto
  show "CHR ''#'' \<notin> set p" unfolding p using h4 set_before[of "CHR ''?''" url4] by auto
qed

lemma last_segment_set: "set (last_segment u) \<subseteq> set u"
  unfolding last_segment_def by (auto dest: set_takeWhileD)

lemma splitparams_sets:
  "set (fst (splitparams u)) \<subseteq> set u" "set (snd (splitparams u)) \<subseteq> set u"
  unfolding splitparams_def
  using set_before[of "CHR '';''" u] set_after[of "CHR '';''" u] last_segment_set[of u]
    set_before[of "CHR '';''" "last_segment u"] set_after[of "CHR '';''" "last_segment u"]
  by (auto dest: in_set_takeD)

lemma urlparse_components:
  assumes "urlparse u = Inr parsed"
  shows "\<forall>c\<in>set (scheme parsed). code c \<in> {43, 45, 46} \<union> {48..57} \<union> {97..122}"
    and "\<forall>c\<in>set (netloc parsed). \<not> is_netloc_delim c"
    and "CHR ''?'' \<notin> set (path parsed)" and "CHR ''#'' \<notin> set (path parsed)"
    and "CHR ''?'' \<notin> set (params parsed)" and "CHR ''#'' \<notin> set (params parsed)"
proof -
  from assms obtain sch nl p q f where s: "urlsplit u = Inr (sch, nl, p, q, f)"
    and sc: "scheme parsed = sch" and n: "netloc parsed = nl"
    and pp: "path parsed = p \<and> params parsed = [] \<or>
             path parsed = fst (splitparams p) \<and> params parsed = snd (splitparams p)"
    unfolding urlparse_def by (auto simp: Let_def split: sum.splits prod.splits if_splits)
  note c = urlsplit_components[OF s]
  show "\<forall>c\<in>set (scheme parsed). code c \<in> {43, 45, 46} \<union> {48..57} \<union> {97..122}"
    using c(1) sc by simp
  show "\<forall>c\<in>set (netloc parsed). \<not> is_netloc_delim c" using c(2) n by simp
  show "CHR ''?'' \<notin> set (path parsed)" using pp c(3) splitparams_sets(1)[of p] by auto
  show "CHR ''#'' \<notin> set (path parsed)" using pp c(4) splitparams_sets(1)[of p] by auto
  show "CHR ''?'' \<notin> set (params parsed)" using pp c(3) splitparams_sets(2)[of p] by auto
  show "CHR ''#'' \<notin> set (params parsed)" using pp c(4) splitparams_sets(2)[of p] by auto
qed

lemma urlunparse_no_query_chars:
  assumes "urlparse u = Inr parsed" and "c = CHR ''?'' \<or> c = CHR ''#''"
  shows "c \<notin> set (urlunparse (parsed\<lparr>query := [], fragment := []\<rparr>))"
proof -
  note k = urlparse_components[OF assms(1)]
  have cc: "code c = 63 \<or> code c = 35" using assms(2) code_delims by auto
  have 1: "c \<notin> set (scheme parsed)" using k(1) cc by force
  have 2: "c \<notin> set (netloc parsed)" using k(2) assms(2) unfolding is_netloc_delim_def by auto
  have 3: "c \<notin> set (path parsed)" "c \<notin> set (params parsed)" using k(3-6) assms(2) by auto
  have 4: "c \<noteq> CHR ''/''" "c \<noteq> CHR '':''" "c \<noteq> CHR '';''" using assms(2) by auto
  show ?thesis
    unfolding urlunparse_def urlunsplit_def using 1 2 3 4 by (auto simp: Let_def)
qed

text \<open>
  Claim C6, amended (normalisation steps). For every URL that parses, \<open>clean_url\<close> is the
  URL parsed, reassembled with empty query and fragment, and with all trailing slashes
  stripped: the result does not end in a slash and contains neither \<open>?\<close> nor \<open>#\<close>.
\<close>

theorem clean_url_steps:
  assumes "urlparse u = Inr parsed"
  shows "\<exists>r. clean_url u = Inr r \<and>
           r = rstrip CHR ''/'' (urlunparse (parsed\<lparr>query := [], fragment := []\<rparr>)) \<and>
           (\<forall>t. r \<noteq> t @ ''/'') \<and> CHR ''?'' \<notin> set r \<and> CHR ''#'' \<notin> set r"
proof -
  let ?g = "urlunparse (parsed\<lparr>query := [], fragment := []\<rparr>)"
  have "clean_url u = Inr (rstrip CHR ''/'' ?g)"
    unfolding clean_url_def using assms by simp
  moreover have "\<forall>t. rstrip CHR ''/'' ?g \<noteq> t @ ''/''" using rstrip_no_trailing by simp
  moreover have "CHR ''?'' \<notin> set (rstrip CHR ''/'' ?g)"
    using urlunparse_no_query_chars[OF assms, of "CHR ''?''"] set_rstrip[of "CHR ''/''" ?g] by auto
  moreover have "CHR ''#'' \<notin> set (rstrip CHR ''/'' ?g)"
    using urlunparse_no_query_chars[OF assms, of "CHR ''#''"] set_rstrip[of "CHR ''/''" ?g] by auto
  ultimately show ?thesis by blast
qed

lemma ex1: "urlparse ''https://ex.com/a//?x=1#top'' = Inr \<lparr>scheme = ''https'', netloc = ''ex.com'', path = ''/a//'', params = [], query = ''x=1'', fragment = ''top''\<rparr>"
  by code_simp

theorem clean_url_steps_witness:
  "urlparse ''https://ex.com/a//?x=1#top'' =
     Inr \<lparr>scheme = ''https'', netloc = ''ex.com'', path = ''/a//'', params = [],
          query = ''x=1'', fragment = ''top''\<rparr> \<and>
   clean_url ''https://ex.com/a//?x=1#top'' = Inr ''https://ex.com/a''"
proof -
  have e: "rstrip CHR ''/'' (urlunparse (\<lparr>scheme = ''https'', netloc = ''ex.com'', path = ''/a//'',
      params = [], query = ''x=1'', fragment = ''top''\<rparr>\<lparr>query := [], fragment := []\<rparr>)) =
      ''https://ex.com/a''"
    by code_simp
  from clean_url_steps[OF ex1] show ?thesis unfolding e using ex1 by auto
qed

theorem normalize_one_slash_counterexample:
  "clean_url ''https://ex.com/a//'' = Inr ''https://ex.com/a'' \<and>
   normalize_spec ''https://ex.com/a//'' = Inr ''https://ex.com/a/''"
  by code_simp




text \<open>
  Claim C8 (classification priority). For a URL that parses, \<open>get_page_type\<close> returns a
  page type; it is \<open>Product\<close> whenever a product indicator is present, whatever the
  category indicators say; \<open>Category\<close> when no product indicator but a category indicator
  is present; \<open>Content\<close> when there is neither.
\<close>

theorem classification_priority:
  assumes "urlparse url = Inr parsed"
  shows "(\<exists>t. get_page_type url sp = Inr t) \<and>
    (contains (lower (path parsed)) ''product'' \<or> div_product sp \<or> div_product_gallery sp
       \<longrightarrow> get_page_type url sp = Inr Product) \<and>
    (\<not> (contains (lower (path parsed)) ''product'' \<or> div_product sp \<or> div_product_gallery sp) \<and>
     (contains (lower (path parsed)) ''category'' \<or> contains (lower (path parsed)) ''shop'' \<or>
      ul_products sp \<or> div_products_header sp)
       \<longrightarrow> get_page_type url sp = Inr Category) \<and>
    (\<not> (contains (lower (path parsed)) ''product'' \<or> div_product sp \<or> div_product_gallery sp) \<and>
     \<not> (contains (lower (path parsed)) ''category'' \<or> contains (lower (path parsed)) ''shop'' \<or>
      ul_products sp \<or> div_products_header sp)
       \<longrightarrow> get_page_type url sp = Inr Content)"
  unfolding get_page_type_def using assms by (simp add: Let_def)

theorem classification_priority_witness:
  "get_page_type ''https://ex.com/shop/item'' both_markers = Inr Product"
proof -
  have p: "urlparse ''https://ex.com/shop/item'' =
      Inr \<lparr>scheme = ''https'', netloc = ''ex.com'', path = ''/shop/item'', params = [],
           query = [], fragment = []\<rparr>"
    by code_simp
  have d: "div_product both_markers" by (simp add: both_markers_def)
  from classification_priority[OF p, of both_markers] d show ?thesis by blast
qed

lemma is_valid_url_parses: "is_valid_url b c = Inr True \<Longrightarrow> \<exists>p. urlparse c = Inr p"
  unfolding is_valid_url_def by (auto split: if_splits sum.splits)

lemma get_page_path_total: "urlparse c = Inr p \<Longrightarrow> \<exists>k. get_page_path c = Inr k"
  unfolding get_page_path_def by (simp add: Let_def)

lemma try_block_cases:
  assumes "try_block s1 url c pth out = (ls, pd, s')"
  shows "(ls = [] \<and> pd = None \<and> s' = s1) \<or>
         (\<exists>sp pt link_data. out = Got 200 sp \<and> get_page_type c sp = Inr pt \<and>
            collect_links (base_url s1) (anchors sp) = Inr link_data \<and>
            ls = map link_url link_data \<and>
            pd = Some \<lparr>pd_url = c, original_url = url, pd_path = pth, pd_type = pt,
                       pd_title = title sp, links = link_data\<rparr> \<and>
            s' = register_page s1 c pth (title sp) pt)"
  using assms unfolding try_block_def
  by (auto split: fetch_outcome.splits if_splits sum.splits)

text \<open>The cases of one call of \<open>scrape_page\<close> that returns.\<close>

lemma scrape_page_cases:
  assumes "scrape_page s url d out = Inr (ls, pd, s')"
  obtains
    (rejected) c where "clean_url url = Inr c"
      "c \<in> visited_urls s \<or> is_valid_url (base_url s) c = Inr False"
      "ls = []" "pd = None" "s' = s"
  | (entered) c pth where "clean_url url = Inr c" "c \<notin> visited_urls s"
      "is_valid_url (base_url s) c = Inr True" "get_page_path c = Inr pth" "d"
      "try_block (s\<lparr>visited_urls := insert c (visited_urls s)\<rparr>) url c pth out = (ls, pd, s')"
  using assms unfolding scrape_page_def
  by (auto split: sum.splits if_splits)

lemma register_page_fields:
  "visited_urls (register_page s c pth ttl pt) = visited_urls s"
  "base_url (register_page s c pth ttl pt) = base_url s"
  "dom (page_hierarchy (register_page s c pth ttl pt)) = insert c (dom (page_hierarchy s))"
  unfolding register_page_def by auto

lemma register_page_partitioned:
  assumes "partitioned s" "c \<notin> dom (page_hierarchy s)"
  shows "partitioned (register_page s c pth ttl pt)"
  using assms unfolding partitioned_def register_page_def
  by (cases pt) auto

lemma register_page_children:
  assumes "children_visited s"
  shows "children_visited (register_page s c pth ttl pt)"
  using assms unfolding children_visited_def register_page_def by auto

lemma scraper_inv_visit:
  assumes "scraper_inv s"
  shows "scraper_inv (s\<lparr>visited_urls := insert c (visited_urls s)\<rparr>)"
  using assms unfolding scraper_inv_def partitioned_def hierarchy_visited_def children_visited_def
  by (simp add: subset_insertI2)

lemma scraper_inv_register:
  assumes "scraper_inv s" "c \<in> visited_urls s" "c \<notin> dom (page_hierarchy s)"
  shows "scraper_inv (register_page s c pth ttl pt)"
  using assms register_page_partitioned[of s c pth ttl pt] register_page_children[of s c pth ttl pt]
  unfolding scraper_inv_def hierarchy_visited_def register_page_fields by auto

lemma scrape_page_inv:
  assumes "scrape_page s url d out = Inr (ls, pd, s')" "scraper_inv s"
  shows "scraper_inv s'"
  using assms(1)
proof (cases rule: scrape_page_cases)
  case (rejected c)
  then show ?thesis using assms(2) by simp
next
  case (entered c pth)
  let ?s1 = "s\<lparr>visited_urls := insert c (visited_urls s)\<rparr>"
  have i1: "scraper_inv ?s1" using scraper_inv_visit[OF assms(2)] .
  have nd: "c \<notin> dom (page_hierarchy ?s1)"
    using entered(2) assms(2) unfolding scraper_inv_def hierarchy_visited_def by auto
  from try_block_cases[OF entered(6)] show ?thesis
  proof
    assume "ls = [] \<and> pd = None \<and> s' = ?s1"
    then show ?thesis using i1 by simp
  next
    assume "\<exists>sp pt link_data. out = Got 200 sp \<and> get_page_type c sp = Inr pt \<and>
            collect_links (base_url ?s1) (anchors sp) = Inr link_data \<and>
            ls = map link_url link_data \<and>
            pd = Some \<lparr>pd_url = c, original_url = url, pd_path = pth, pd_type = pt,
                       pd_title = title sp, links = link_data\<rparr> \<and>
            s' = register_page ?s1 c pth (title sp) pt"
    then obtain sp :: soup and pt where "s' = register_page ?s1 c pth (title sp) pt" by blast
    then show ?thesis using scraper_inv_register[OF i1 _ nd] by simp
  qed
qed

lemma scrape_page_base: 
  assumes "scrape_page s url d out = Inr (ls, pd, s')"
  shows "base_url s' = base_url s"
  using assms
proof (cases rule: scrape_page_cases)
  case (rejected c)
  then show ?thesis by simp
next
  case (entered c pth)
  from try_block_cases[OF entered(6)] show ?thesis
    by (auto simp: register_page_fields)
qed

text \<open>A page record means that the page is a node now, and the record carries its normal form.\<close>

lemma scrape_page_record:
  assumes "scrape_page s url d out = Inr (ls, Some p, s')"
  shows "clean_url url = Inr (pd_url p) \<and> pd_url p \<in> dom (page_hierarchy s') \<and>
    pd_url p \<notin> visited_urls s \<and> ls = map link_url (links p)"
  using assms
proof (cases rule: scrape_page_cases)
  case (rejected c)
  then show ?thesis by simp
next
  case (entered c pth)
  from try_block_cases[OF entered(6)] entered(1,2)
  show ?thesis
    by (auto simp: register_page_def)
qed

lemma appended_refl: "appended cc s s"
  unfolding appended_def by auto

lemma appended_step:
  assumes "page_hierarchy s cc = Some nd" "lc \<in> dom (page_hierarchy s)"
    "appended cc (s\<lparr>page_hierarchy := (page_hierarchy s)(cc \<mapsto> nd\<lparr>children := children nd @ [lc]\<rparr>)\<rparr>) s'"
  shows "appended cc s s'"
proof -
  let ?m = "s\<lparr>page_hierarchy := (page_hierarchy s)(cc \<mapsto> nd\<lparr>children := children nd @ [lc]\<rparr>)\<rparr>"
  have dm: "dom (page_hierarchy ?m) = dom (page_hierarchy s)" using assms(1) by auto
  have "\<exists>nd0 new. page_hierarchy s u = Some nd0 \<and> children nd' = children nd0 @ new \<and>
            set new \<subseteq> dom (page_hierarchy s) \<and> (new \<noteq> [] \<longrightarrow> u = cc)"
    if h: "page_hierarchy s' u = Some nd'" for u nd'
  proof -
    from assms(3) h obtain ndm new where m: "page_hierarchy ?m u = Some ndm"
      "children nd' = children ndm @ new" "set new \<subseteq> dom (page_hierarchy ?m)" "new \<noteq> [] \<longrightarrow> u = cc"
      unfolding appended_def by blast
    show ?thesis
    proof (cases "u = cc")
      case True
      with m(1) have "ndm = nd\<lparr>children := children nd @ [lc]\<rparr>" by simp
      then have "children nd' = children nd @ (lc # new)" using m(2) by simp
      moreover have "set (lc # new) \<subseteq> dom (page_hierarchy s)" using m(3) dm assms(2) by auto
      ultimately show ?thesis using assms(1) True by blast
    next
      case False
      with m(1) have "page_hierarchy s u = Some ndm" by simp
      then show ?thesis using m(2,3,4) dm by blast
    qed
  qed
  then show ?thesis using assms(3) dm unfolding appended_def by simp
qed

lemma add_children_appended:
  "add_children cc ls s = Inr s' \<Longrightarrow> appended cc s s'"
proof (induction ls arbitrary: s)
  case Nil
  then show ?case using appended_refl by simp
next
  case (Cons l ls)
  from Cons.prems obtain lc where lc: "clean_url (link_url l) = Inr lc"
    by (auto split: sum.splits)
  show ?case
  proof (cases "lc \<in> dom (page_hierarchy s)")
    case False
    with Cons.prems lc have "add_children cc ls s = Inr s'" by simp
    then show ?thesis using Cons.IH by blast
  next
    case True
    with Cons.prems lc obtain nd where nd: "page_hierarchy s cc = Some nd"
      and r: "add_children cc ls
         (s\<lparr>page_hierarchy := (page_hierarchy s)(cc \<mapsto> nd\<lparr>children := children nd @ [lc]\<rparr>)\<rparr>) = Inr s'"
      by (auto split: option.splits)
    from Cons.IH[OF r] show ?thesis using appended_step[OF nd True] by blast
  qed
qed

lemma appended_inv:
  assumes "appended cc s s'" "scraper_inv s"
  shows "scraper_inv s'"
proof -
  have p: "partitioned s'" and h: "hierarchy_visited s'"
    using assms unfolding appended_def scraper_inv_def partitioned_def hierarchy_visited_def by auto
  have "set (children nd') \<subseteq> visited_urls s'" if k: "page_hierarchy s' u = Some nd'" for u nd'
  proof -
    from assms(1) k obtain nd new where n: "page_hierarchy s u = Some nd"
      "children nd' = children nd @ new" "set new \<subseteq> dom (page_hierarchy s)"
      unfolding appended_def by blast
    have "set (children nd) \<subseteq> visited_urls s"
      using assms(2) n(1) unfolding scraper_inv_def children_visited_def by blast
    moreover have "set new \<subseteq> visited_urls s"
      using assms(2) n(3) unfolding scraper_inv_def hierarchy_visited_def by blast
    moreover have "visited_urls s' = visited_urls s" using assms(1) unfolding appended_def by simp
    ultimately show ?thesis using n(2) by simp
  qed
  then show ?thesis using p h unfolding scraper_inv_def children_visited_def by blast
qed

text \<open>One iteration, taken apart.\<close>

lemma crawl_body_cases:
  assumes "crawl_body w st = Inr st'"
  obtains
    (no_record) current_url queue new_links queue' where
      "to_visit st = current_url # queue"
      "scrape_page (scraper_of st) current_url (makedirs_ok w (pages_scraped st) current_url)
         (fetch w (pages_scraped st) current_url) = Inr (new_links, None, scraper_of st')"
      "enqueue (visited_urls (scraper_of st')) new_links queue = Inr queue'"
      "st' = \<lparr>to_visit = queue', pages_scraped = pages_scraped st + 1, scraper_of = scraper_of st'\<rparr>"
  | (with_record) current_url queue new_links pd s1 current_clean queue' where
      "to_visit st = current_url # queue"
      "scrape_page (scraper_of st) current_url (makedirs_ok w (pages_scraped st) current_url)
         (fetch w (pages_scraped st) current_url) = Inr (new_links, Some pd, s1)"
      "clean_url current_url = Inr current_clean"
      "add_children current_clean (links pd) s1 = Inr (scraper_of st')"
      "enqueue (visited_urls (scraper_of st')) new_links queue = Inr queue'"
      "st' = \<lparr>to_visit = queue', pages_scraped = pages_scraped st + 1, scraper_of = scraper_of st'\<rparr>"
  using assms unfolding crawl_body_def
  by (auto split: list.splits sum.splits option.splits prod.splits)

lemma crawl_body_inv:
  assumes "crawl_body w st = Inr st'" "scraper_inv (scraper_of st)"
  shows "scraper_inv (scraper_of st')"
  using assms(1)
proof (cases rule: crawl_body_cases)
  case (no_record current_url queue new_links queue')
  then show ?thesis using scrape_page_inv assms(2) by blast
next
  case (with_record current_url queue new_links pd s1 current_clean queue')
  have "scraper_inv s1" using scrape_page_inv[OF with_record(2) assms(2)] .
  then show ?thesis using appended_inv[OF add_children_appended[OF with_record(4)]] by blast
qed

lemma crawl_body_counts:
  assumes "crawl_body w st = Inr st'"
  shows "pages_scraped st' = Suc (pages_scraped st)"
  using assms by (cases rule: crawl_body_cases) (metis crawl.select_convs(2) Suc_eq_plus1)+

lemma init_inv: "scraper_inv (init_scraper url)"
  unfolding scraper_inv_def partitioned_def hierarchy_visited_def children_visited_def init_scraper_def
  by simp

lemma reach_inv: "reach w mp url k st \<Longrightarrow> scraper_inv (scraper_of st)"
proof (induction rule: reach.induct)
  case reach_start
  then show ?case using init_inv by (simp add: start_def)
next
  case (reach_step k st st')
  then show ?case using crawl_body_inv by blast
qed

lemma reach_counts: "reach w mp url k st \<Longrightarrow> pages_scraped st = k"
proof (induction rule: reach.induct)
  case reach_start
  then show ?case by (simp add: start_def)
next
  case (reach_step k st st')
  then show ?case using crawl_body_counts by simp
qed

text \<open>The loop returns a state that the iterations reach.\<close>

lemma crawl_loop_reach_aux:
  assumes "crawl_loop w mp st0 = Some r"
  shows "\<forall>k. reach w mp url k st0 \<longrightarrow> r = Inr st \<longrightarrow>
     (\<exists>n. reach w mp url n st \<and> \<not> loop_cond mp st)"
  using assms
proof (induction w mp st0 r rule: crawl_loop.raw_induct)
  case (1 crawl_loop' w mp st0 r)
  show ?case
  proof (intro allI impI)
    fix k
    assume rk: "reach w mp url k st0" and r: "r = Inr st"
    show "\<exists>n. reach w mp url n st \<and> \<not> loop_cond mp st"
    proof (cases "loop_cond mp st0")
      case False
      with 1(2) r have "st0 = st" by simp
      then show ?thesis using False rk by blast
    next
      case True
      with 1(2) r obtain st1 where b: "crawl_body w st0 = Inr st1"
        and l: "crawl_loop' w mp st1 = Some r"
        by (auto split: sum.splits)
      have "reach w mp url (Suc k) st1" using reach_step[OF rk True b] .
      moreover have "crawl_loop w mp st1 = Some r"
        using 1(3) True b by (subst (asm) crawl_loop.simps) simp
      ultimately show ?thesis using 1(1)[OF l] r by blast
    qed
  qed
qed (rule assms)

lemma crawl_loop_reach:
  assumes "crawl_loop w mp st0 = Some (Inr st)" "reach w mp url k st0"
  shows "\<exists>n. reach w mp url n st \<and> \<not> loop_cond mp st"
  using crawl_loop_reach_aux[OF assms(1)] assms(2) by blast

lemma crawl_loop_budget_returns:
  "\<exists>r. crawl_loop w (Some N) st = Some r"
proof (induction "nat (N - int (pages_scraped st))" arbitrary: st rule: less_induct)
  case less
  show ?case
  proof (cases "loop_cond (Some N) st")
    case False
    then show ?thesis by (subst crawl_loop.simps) simp
  next
    case True
    then have lt: "int (pages_scraped st) < N" unfolding loop_cond_def by simp
    show ?thesis
    proof (cases "crawl_body w st")
      case (Inl e)
      with True show ?thesis by (subst crawl_loop.simps) simp
    next
      case (Inr st')
      then have "pages_scraped st' = Suc (pages_scraped st)" by (rule crawl_body_counts)
      with lt have "nat (N - int (pages_scraped st')) < nat (N - int (pages_scraped st))" by simp
      from less[OF this] obtain r where "crawl_loop w (Some N) st' = Some r" by blast
      with True Inr show ?thesis by (subst crawl_loop.simps) simp
    qed
  qed
qed

lemma reach_budget: "reach w (Some N) url k st \<Longrightarrow> 0 \<le> N \<Longrightarrow> int k \<le> N"
proof (induction rule: reach.induct)
  case reach_start
  then show ?case by simp
next
  case (reach_step k st st')
  then have "pages_scraped st = k" using reach_counts by blast
  with reach_step(2) show ?case unfolding loop_cond_def by simp
qed

text \<open>
  Claim C2 (budget). With \<open>max_pages = N\<close>: after \<open>k\<close> iterations the counter
  \<open>pages_scraped\<close> is \<open>k\<close>, and for \<open>N \<ge> 0\<close> it never exceeds \<open>N\<close>; an iteration
  starts (a URL is taken from the queue) only when fewer than \<open>N\<close> have been completed;
  the loop returns; and at the end the counter is at most \<open>N\<close>, with the queue empty or
  the budget used up. Without a budget a crawl that returns does so with an empty queue.
\<close>

theorem budget_respected:
  "(\<forall>k st. 0 \<le> N \<and> reach w (Some N) url k st \<longrightarrow> pages_scraped st = k \<and> int k \<le> N) \<and>
   (\<forall>k st. reach w (Some N) url k st \<and> loop_cond (Some N) st \<longrightarrow> int k < N) \<and>
   (\<exists>r. crawl_loop w (Some N) (start (init_scraper url)) = Some r) \<and>
   (\<forall>st. 0 \<le> N \<and> crawl_loop w (Some N) (start (init_scraper url)) = Some (Inr st) \<longrightarrow>
      int (pages_scraped st) \<le> N \<and> (to_visit st = [] \<or> int (pages_scraped st) = N)) \<and>
   (\<forall>st. crawl_loop w None (start (init_scraper url)) = Some (Inr st) \<longrightarrow> to_visit st = [])"
proof (intro conjI allI impI)
  fix k st assume a: "0 \<le> N \<and> reach w (Some N) url k st"
  show "pages_scraped st = k" using a reach_counts by blast
  show "int k \<le> N" using a reach_budget by blast
next
  fix k st assume a: "reach w (Some N) url k st \<and> loop_cond (Some N) st"
  then have "pages_scraped st = k" using reach_counts by blast
  with a show "int k < N" unfolding loop_cond_def by simp
next
  show "\<exists>r. crawl_loop w (Some N) (start (init_scraper url)) = Some r"
    by (rule crawl_loop_budget_returns)
next
  fix st assume a: "0 \<le> N \<and> crawl_loop w (Some N) (start (init_scraper url)) = Some (Inr st)"
  then obtain n where r: "reach w (Some N) url n st" and c: "\<not> loop_cond (Some N) st"
    using crawl_loop_reach[OF _ reach_start] by blast
  have le: "int n \<le> N" using reach_budget[OF r] a by simp
  have n: "pages_scraped st = n" using reach_counts[OF r] .
  show "int (pages_scraped st) \<le> N" using le n by simp
  show "to_visit st = [] \<or> int (pages_scraped st) = N"
    using c le n unfolding loop_cond_def by auto
next
  fix st assume a: "crawl_loop w None (start (init_scraper url)) = Some (Inr st)"
  then obtain n where "\<not> loop_cond None st"
    using crawl_loop_reach[OF _ reach_start] by blast
  then show "to_visit st = []" unfolding loop_cond_def by simp
qed

text \<open>
  Claim C1 (type-set partition). In every state that the crawl loop reaches, the union of
  \<open>product_pages\<close>, \<open>category_pages\<close> and \<open>content_pages\<close> is the set of keys of
  \<open>page_hierarchy\<close>, and the three sets are pairwise disjoint. The same holds for the two
  files that \<open>scrape_website\<close> writes when the crawl completes: every key of
  \<^verbatim>\<open>site_hierarchy.json\<close> is in exactly one list of \<^verbatim>\<open>page_listings.json\<close>.
\<close>

theorem type_sets_partition:
  "(\<forall>k st. reach w mp url k st \<longrightarrow>
      product_pages (scraper_of st) \<union> category_pages (scraper_of st) \<union> content_pages (scraper_of st)
        = dom (page_hierarchy (scraper_of st)) \<and>
      product_pages (scraper_of st) \<inter> category_pages (scraper_of st) = {} \<and>
      product_pages (scraper_of st) \<inter> content_pages (scraper_of st) = {} \<and>
      category_pages (scraper_of st) \<inter> content_pages (scraper_of st) = {}) \<and>
   (\<forall>files. scrape_website w (init_scraper url) mp = Some (Inr files) \<longrightarrow>
      products files \<union> categories files \<union> content files = dom (site_hierarchy files) \<and>
      products files \<inter> categories files = {} \<and>
      products files \<inter> content files = {} \<and>
      categories files \<inter> content files = {})"
proof (intro conjI allI impI)
  fix k st assume "reach w mp url k st"
  then have "partitioned (scraper_of st)" using reach_inv unfolding scraper_inv_def by blast
  then show "product_pages (scraper_of st) \<union> category_pages (scraper_of st) \<union> content_pages (scraper_of st)
        = dom (page_hierarchy (scraper_of st))"
    "product_pages (scraper_of st) \<inter> category_pages (scraper_of st) = {}"
    "product_pages (scraper_of st) \<inter> content_pages (scraper_of st) = {}"
    "category_pages (scraper_of st) \<inter> content_pages (scraper_of st) = {}"
    unfolding partitioned_def by simp_all
next
  fix files assume "scrape_website w (init_scraper url) mp = Some (Inr files)"
  then obtain st where l: "crawl_loop w mp (start (init_scraper url)) = Some (Inr st)"
    and f: "files = save_site_hierarchy (scraper_of st)"
    unfolding scrape_website_def by (auto split: option.splits sum.splits)
  from crawl_loop_reach[OF l reach_start] obtain n where "reach w mp url n st" by blast
  then have "partitioned (scraper_of st)" using reach_inv unfolding scraper_inv_def by blast
  then show "products files \<union> categories files \<union> content files = dom (site_hierarchy files)"
    "products files \<inter> categories files = {}"
    "products files \<inter> content files = {}"
    "categories files \<inter> content files = {}"
    unfolding partitioned_def f save_site_hierarchy_def by simp_all
qed

text \<open>
  Claim C9 (hierarchy keys are visited). In every state the crawl loop reaches, every key
  of \<open>page_hierarchy\<close> is a member of \<open>visited_urls\<close>.
\<close>

theorem hierarchy_keys_visited:
  assumes "reach w mp url k st"
  shows "dom (page_hierarchy (scraper_of st)) \<subseteq> visited_urls (scraper_of st)"
  using reach_inv[OF assms] unfolding scraper_inv_def hierarchy_visited_def by simp

text \<open>
  Claim C4 (hierarchy edges). In every state the crawl loop reaches, every child recorded
  in a hierarchy node is in \<open>visited_urls\<close>. More precisely, for the link loop of one
  iteration, run after \<open>scrape_page\<close> returned a record and the scraper \<open>s1\<close>: it does
  not change \<open>visited_urls\<close>, it only appends to children lists, only at the current
  page, and every target it appends is in \<open>visited_urls\<close> of \<open>s1\<close>, the visited set at the
  time the edge is added.
\<close>

theorem edge_targets_visited:
  assumes "reach w mp url k st"
  shows "(\<forall>u nd. page_hierarchy (scraper_of st) u = Some nd \<longrightarrow>
            set (children nd) \<subseteq> visited_urls (scraper_of st)) \<and>
         (\<forall>current_url queue new_links pd s1 current_clean s2.
            to_visit st = current_url # queue \<and>
            scrape_page (scraper_of st) current_url (makedirs_ok w (pages_scraped st) current_url)
              (fetch w (pages_scraped st) current_url) = Inr (new_links, Some pd, s1) \<and>
            clean_url current_url = Inr current_clean \<and>
            add_children current_clean (links pd) s1 = Inr s2 \<longrightarrow>
            visited_urls s2 = visited_urls s1 \<and>
            (\<forall>u nd2. page_hierarchy s2 u = Some nd2 \<longrightarrow>
               (\<exists>nd1 new. page_hierarchy s1 u = Some nd1 \<and> children nd2 = children nd1 @ new \<and>
                  set new \<subseteq> visited_urls s1 \<and> (new \<noteq> [] \<longrightarrow> u = current_clean))))"
proof (intro conjI allI impI)
  fix u nd assume "page_hierarchy (scraper_of st) u = Some nd"
  then show "set (children nd) \<subseteq> visited_urls (scraper_of st)"
    using reach_inv[OF assms] unfolding scraper_inv_def children_visited_def by blast
next
  fix current_url queue new_links pd s1 current_clean s2
  assume a: "to_visit st = current_url # queue \<and>
            scrape_page (scraper_of st) current_url (makedirs_ok w (pages_scraped st) current_url)
              (fetch w (pages_scraped st) current_url) = Inr (new_links, Some pd, s1) \<and>
            clean_url current_url = Inr current_clean \<and>
            add_children current_clean (links pd) s1 = Inr s2"
  then have i1: "scraper_inv s1" using scrape_page_inv reach_inv[OF assms] by blast
  from a have ap: "appended current_clean s1 s2" using add_children_appended by blast
  show "visited_urls s2 = visited_urls s1" using ap unfolding appended_def by simp
  fix u nd2 assume "page_hierarchy s2 u = Some nd2"
  with ap obtain nd1 new where "page_hierarchy s1 u = Some nd1" "children nd2 = children nd1 @ new"
    "set new \<subseteq> dom (page_hierarchy s1)" "new \<noteq> [] \<longrightarrow> u = current_clean"
    unfolding appended_def by blast
  moreover have "dom (page_hierarchy s1) \<subseteq> visited_urls s1"
    using i1 unfolding scraper_inv_def hierarchy_visited_def by simp
  ultimately show "\<exists>nd1 new. page_hierarchy s1 u = Some nd1 \<and> children nd2 = children nd1 @ new \<and>
                  set new \<subseteq> visited_urls s1 \<and> (new \<noteq> [] \<longrightarrow> u = current_clean)"
    by blast
qed

text \<open>
  Claim C10 (frame of a rejected call). When the normal form of the URL is already in
  \<open>visited_urls\<close>, or is not on the seed's domain, \<open>scrape_page\<close> returns \<open>([], None)\<close> and
  the scraper unchanged. Whatever the call, a URL that it adds to \<open>visited_urls\<close> is on
  the seed's domain: an off-domain URL is never added.
\<close>

theorem scrape_page_rejects:
  assumes "clean_url url = Inr c"
    and "c \<in> visited_urls s \<or> is_valid_url (base_url s) c = Inr False"
  shows "scrape_page s url dirs_ok outcome = Inr ([], None, s) \<and>
         (\<forall>url' d' o' ls pd s' v. scrape_page s url' d' o' = Inr (ls, pd, s') \<and>
            v \<in> visited_urls s' \<and> v \<notin> visited_urls s \<longrightarrow>
            is_valid_url (base_url s) v = Inr True)"
proof (intro conjI allI impI)
  show "scrape_page s url dirs_ok outcome = Inr ([], None, s)"
    using assms unfolding scrape_page_def by auto
next
  fix url' d' o' ls pd s' v
  assume a: "scrape_page s url' d' o' = Inr (ls, pd, s') \<and> v \<in> visited_urls s' \<and> v \<notin> visited_urls s"
  then have sp: "scrape_page s url' d' o' = Inr (ls, pd, s')" by simp
  from sp show "is_valid_url (base_url s) v = Inr True"
  proof (cases rule: scrape_page_cases)
    case (rejected c')
    with a show ?thesis by simp
  next
    case (entered c' pth)
    from try_block_cases[OF entered(6)]
    have "visited_urls s' = insert c' (visited_urls s)"
      by (auto simp: register_page_fields)
    with a entered(3) show ?thesis by auto
  qed
qed

text \<open>
  Claim C5 (page-scoped failure). When \<open>scrape_page\<close> gets as far as the request (the
  normal form is new and on the seed's domain, the page directory is made) and the request
  raises, or returns a status other than 200, or the extraction raises, then it returns
  the empty link list and no record, the normal form is in \<open>visited_urls\<close> afterwards and
  nothing else has changed, and every later call on the same URL is rejected with
  \<open>([], None)\<close> and no change of state.
\<close>

theorem scrape_page_failure:
  assumes "clean_url url = Inr c" and "c \<notin> visited_urls s"
    and "is_valid_url (base_url s) c = Inr True"
    and "outcome = Raised \<or> (\<exists>status sp. outcome = Got status sp \<and> status \<noteq> 200) \<or>
         (\<exists>sp e. outcome = Got 200 sp \<and>
            (get_page_type c sp = Inl e \<or> collect_links (base_url s) (anchors sp) = Inl e))"
  shows "scrape_page s url True outcome =
           Inr ([], None, s\<lparr>visited_urls := insert c (visited_urls s)\<rparr>) \<and>
         (\<forall>dirs_ok' outcome'.
            scrape_page (s\<lparr>visited_urls := insert c (visited_urls s)\<rparr>) url dirs_ok' outcome' =
              Inr ([], None, s\<lparr>visited_urls := insert c (visited_urls s)\<rparr>))"
proof -
  let ?s1 = "s\<lparr>visited_urls := insert c (visited_urls s)\<rparr>"
  from is_valid_url_parses[OF assms(3)] get_page_path_total
  obtain pth where pth: "get_page_path c = Inr pth" by blast
  have "try_block ?s1 url c pth outcome = ([], None, ?s1)"
    using assms(4) unfolding try_block_def by (auto split: sum.splits)
  then have 1: "scrape_page s url True outcome = Inr ([], None, ?s1)"
    using assms(1,2,3) pth unfolding scrape_page_def by simp
  have 2: "scrape_page ?s1 url d o' = Inr ([], None, ?s1)" for d o'
    using assms(1) unfolding scrape_page_def by simp
  show ?thesis using 1 2 by blast
qed

lemma site_urls:
  "clean_url ''https://ex.com'' = Inr ''https://ex.com''"
  "clean_url ''https://ex.com/shop'' = Inr ''https://ex.com/shop''"
  "clean_url ''https://ex.com/missing'' = Inr ''https://ex.com/missing''"
  "is_valid_url ''https://ex.com'' ''https://ex.com'' = Inr True"
  "is_valid_url ''https://ex.com'' ''https://ex.com/shop'' = Inr True"
  "is_valid_url ''https://ex.com'' ''https://ex.com/missing'' = Inr True"
  "get_page_path ''https://ex.com'' = Inr (Some ''home'')"
  "get_page_path ''https://ex.com/shop'' = Inr (Some ''shop'')"
  "get_page_path ''https://ex.com/missing'' = Inr (Some ''missing'')"
  by code_simp+

lemma site_pages:
  "get_page_type ''https://ex.com'' home_page = Inr Content"
  "get_page_type ''https://ex.com/shop'' shop_page = Inr Category"
  "collect_links ''https://ex.com'' (anchors home_page) =
     Inr [\<lparr>link_url = ''https://ex.com/shop'', link_text = ''Shop'', link_title = []\<rparr>,
          \<lparr>link_url = ''https://ex.com'', link_text = ''Home'', link_title = []\<rparr>]"
  "collect_links ''https://ex.com'' (anchors shop_page) =
     Inr [\<lparr>link_url = ''https://ex.com'', link_text = ''Home'', link_title = []\<rparr>,
          \<lparr>link_url = ''https://ex.com/missing'', link_text = ''Gone'', link_title = []\<rparr>]"
  by code_simp+

lemma site_titles: "title home_page = Some ''Home''" "title shop_page = Some ''Shop''"
  by (simp_all add: home_page_def shop_page_def)

lemma site_start: "start (init_scraper ''https://ex.com/'') =
  \<lparr>to_visit = [''https://ex.com''], pages_scraped = 0,
   scraper_of = \<lparr>base_url = ''https://ex.com'', visited_urls = {}, page_hierarchy = Map.empty,
     product_pages = {}, category_pages = {}, content_pages = {}\<rparr>\<rparr>"
proof -
  have "rstrip CHR ''/'' ''https://ex.com/'' = ''https://ex.com''" by code_simp
  then show ?thesis unfolding start_def init_scraper_def by simp
qed

lemma site_step1: "crawl_body site (start (init_scraper ''https://ex.com/'')) = Inr crawl1"
  unfolding site_start
  by (simp add: crawl_body_def scrape_page_def try_block_def register_page_def site_def
        site_urls site_pages site_titles crawl1_def home_node_def)

lemma site_step2: "crawl_body site crawl1 = Inr crawl2"
  by (simp add: crawl_body_def scrape_page_def try_block_def register_page_def site_def
        site_urls site_pages site_titles crawl1_def crawl2_def shop_node_def home_node_def)

lemma site_step3: "crawl_body site crawl2 = Inr crawl3"
  by (simp add: crawl_body_def scrape_page_def try_block_def register_page_def site_def
        site_urls site_pages site_titles crawl2_def crawl3_def shop_node_def home_node_def)

lemma site_reach1: "loop_cond mp (start (init_scraper ''https://ex.com/'')) \<Longrightarrow>
    reach site mp ''https://ex.com/'' (Suc 0) crawl1"
  using reach_step[OF reach_start _ site_step1] by blast

lemma site_reach2: "loop_cond mp (start (init_scraper ''https://ex.com/'')) \<Longrightarrow>
    loop_cond mp crawl1 \<Longrightarrow> reach site mp ''https://ex.com/'' (Suc (Suc 0)) crawl2"
  using reach_step[OF site_reach1 _ site_step2] by blast

lemma site_conds:
  "loop_cond None (start (init_scraper ''https://ex.com/''))"
  "loop_cond None crawl1" "loop_cond None crawl2" "\<not> loop_cond None crawl3"
  "loop_cond (Some 2) (start (init_scraper ''https://ex.com/''))"
  "loop_cond (Some 2) crawl1" "\<not> loop_cond (Some 2) crawl2"
  unfolding site_start by (simp_all add: loop_cond_def crawl1_def crawl2_def crawl3_def)

lemma site_crawl_all:
  "crawl_loop site None (start (init_scraper ''https://ex.com/'')) = Some (Inr crawl3)"
proof -
  have 3: "crawl_loop site None crawl3 = Some (Inr crawl3)"
    by (subst crawl_loop.simps) (simp add: site_conds)
  have 2: "crawl_loop site None crawl2 = Some (Inr crawl3)"
    by (subst crawl_loop.simps) (simp add: site_conds site_step3 3)
  have 1: "crawl_loop site None crawl1 = Some (Inr crawl3)"
    by (subst crawl_loop.simps) (simp add: site_conds site_step2 2)
  show ?thesis
    by (subst crawl_loop.simps) (simp add: site_conds site_step1 1)
qed

lemma site_crawl_two:
  "crawl_loop site (Some 2) (start (init_scraper ''https://ex.com/'')) = Some (Inr crawl2)"
proof -
  have 2: "crawl_loop site (Some 2) crawl2 = Some (Inr crawl2)"
    by (subst crawl_loop.simps) (simp add: site_conds)
  have 1: "crawl_loop site (Some 2) crawl1 = Some (Inr crawl2)"
    by (subst crawl_loop.simps) (simp add: site_conds site_step2 2)
  show ?thesis
    by (subst crawl_loop.simps) (simp add: site_conds site_step1 1)
qed

theorem budget_respected_witness:
  "reach site (Some 2) ''https://ex.com/'' 2 crawl2 \<and> pages_scraped crawl2 = 2 \<and>
   reach site (Some 2) ''https://ex.com/'' 1 crawl1 \<and> loop_cond (Some 2) crawl1 \<and>
   crawl_loop site (Some 2) (start (init_scraper ''https://ex.com/'')) = Some (Inr crawl2) \<and>
   to_visit crawl2 = [''https://ex.com/missing''] \<and>
   crawl_loop site None (start (init_scraper ''https://ex.com/'')) = Some (Inr crawl3) \<and>
   to_visit crawl3 = []"
proof -
  note t = budget_respected[of 2 site "''https://ex.com/''"]
  have r2: "reach site (Some 2) ''https://ex.com/'' 2 crawl2"
    using site_reach2[OF site_conds(5,6)] by (simp add: numeral_2_eq_2)
  have r1: "reach site (Some 2) ''https://ex.com/'' 1 crawl1"
    using site_reach1[OF site_conds(5)] by simp
  from t r2 have a: "pages_scraped crawl2 = 2" by simp
  from t r1 site_conds(6) have "int 1 < 2" by blast
  from t site_crawl_two have "int (pages_scraped crawl2) \<le> 2" by simp
  from t site_crawl_all have b: "to_visit crawl3 = []" by blast
  have c: "to_visit crawl2 = [''https://ex.com/missing'']" by (simp add: crawl2_def)
  show ?thesis using r2 a r1 site_conds(6) site_crawl_two site_crawl_all b c by blast
qed

theorem type_sets_partition_witness:
  "reach site None ''https://ex.com/'' 2 crawl2 \<and>
   product_pages (scraper_of crawl2) \<union> category_pages (scraper_of crawl2) \<union>
     content_pages (scraper_of crawl2) = dom (page_hierarchy (scraper_of crawl2)) \<and>
   scrape_website site (init_scraper ''https://ex.com/'') None =
     Some (Inr (save_site_hierarchy (scraper_of crawl3))) \<and>
   products (save_site_hierarchy (scraper_of crawl3)) \<union>
     categories (save_site_hierarchy (scraper_of crawl3)) \<union>
     content (save_site_hierarchy (scraper_of crawl3)) =
     dom (site_hierarchy (save_site_hierarchy (scraper_of crawl3)))"
proof -
  note t = type_sets_partition[of site None "''https://ex.com/''"]
  have r2: "reach site None ''https://ex.com/'' 2 crawl2"
    using site_reach2[OF site_conds(1,2)] by (simp add: numeral_2_eq_2)
  have w: "scrape_website site (init_scraper ''https://ex.com/'') None =
     Some (Inr (save_site_hierarchy (scraper_of crawl3)))"
    unfolding scrape_website_def by (simp add: site_crawl_all)
  from t r2 have a: "product_pages (scraper_of crawl2) \<union> category_pages (scraper_of crawl2) \<union>
     content_pages (scraper_of crawl2) = dom (page_hierarchy (scraper_of crawl2))" by blast
  from t w have b: "products (save_site_hierarchy (scraper_of crawl3)) \<union>
     categories (save_site_hierarchy (scraper_of crawl3)) \<union>
     content (save_site_hierarchy (scraper_of crawl3)) =
     dom (site_hierarchy (save_site_hierarchy (scraper_of crawl3)))" by blast
  show ?thesis using r2 a w b by blast
qed

theorem hierarchy_keys_visited_witness:
  "reach site None ''https://ex.com/'' 2 crawl2 \<and>
   dom (page_hierarchy (scraper_of crawl2)) \<subseteq> visited_urls (scraper_of crawl2) \<and>
   ''https://ex.com/shop'' \<in> dom (page_hierarchy (scraper_of crawl2))"
proof -
  have r2: "reach site None ''https://ex.com/'' 2 crawl2"
    using site_reach2[OF site_conds(1,2)] by (simp add: numeral_2_eq_2)
  have "''https://ex.com/shop'' \<in> dom (page_hierarchy (scraper_of crawl2))"
    by (simp add: crawl2_def)
  with r2 hierarchy_keys_visited[OF r2] show ?thesis by blast
qed

lemma site_shop_scraped:
  "scrape_page (scraper_of crawl1) ''https://ex.com/shop''
     (makedirs_ok site (pages_scraped crawl1) ''https://ex.com/shop'')
     (fetch site (pages_scraped crawl1) ''https://ex.com/shop'') =
   Inr ([''https://ex.com'', ''https://ex.com/missing''], Some shop_record, shop_scraped)"
  by (simp add: scrape_page_def try_block_def register_page_def site_def
        site_urls site_pages site_titles crawl1_def shop_scraped_def shop_record_def shop_node_def)

lemma site_shop_edges:
  "add_children ''https://ex.com/shop'' (links shop_record) shop_scraped = Inr (scraper_of crawl2)"
  by (simp add: site_urls shop_record_def shop_scraped_def crawl2_def shop_node_def)

theorem edge_targets_visited_witness:
  "reach site None ''https://ex.com/'' 1 crawl1 \<and>
   visited_urls (scraper_of crawl2) = visited_urls shop_scraped \<and>
   (\<exists>nd1 new. page_hierarchy shop_scraped ''https://ex.com/shop'' = Some nd1 \<and>
      children shop_node = children nd1 @ new \<and> set new \<subseteq> visited_urls shop_scraped)"
proof -
  have r1: "reach site None ''https://ex.com/'' 1 crawl1"
    using site_reach1[OF site_conds(1)] by simp
  have q: "to_visit crawl1 = ''https://ex.com/shop'' # []" by (simp add: crawl1_def)
  have n: "page_hierarchy (scraper_of crawl2) ''https://ex.com/shop'' = Some shop_node"
    by (simp add: crawl2_def)
  from edge_targets_visited[OF r1] q site_shop_scraped site_urls(2) site_shop_edges
  have "visited_urls (scraper_of crawl2) = visited_urls shop_scraped \<and>
     (\<forall>u nd2. page_hierarchy (scraper_of crawl2) u = Some nd2 \<longrightarrow>
        (\<exists>nd1 new. page_hierarchy shop_scraped u = Some nd1 \<and> children nd2 = children nd1 @ new \<and>
           set new \<subseteq> visited_urls shop_scraped \<and> (new \<noteq> [] \<longrightarrow> u = ''https://ex.com/shop'')))"
    by blast
  with n r1 show ?thesis by blast
qed

theorem scrape_page_rejects_witness:
  "scrape_page (scraper_of crawl1) ''https://ex.com/?page=2#top'' True (Got 200 home_page) =
     Inr ([], None, scraper_of crawl1) \<and>
   scrape_page (scraper_of crawl1) ''https://other.org/x'' True (Got 200 home_page) =
     Inr ([], None, scraper_of crawl1)"
proof -
  have c1: "clean_url ''https://ex.com/?page=2#top'' = Inr ''https://ex.com''" by code_simp
  have v1: "''https://ex.com'' \<in> visited_urls (scraper_of crawl1)" by (simp add: crawl1_def)
  have c2: "clean_url ''https://other.org/x'' = Inr ''https://other.org/x''" by code_simp
  have "is_valid_url ''https://ex.com'' ''https://other.org/x'' = Inr False" by code_simp
  then have v2: "is_valid_url (base_url (scraper_of crawl1)) ''https://other.org/x'' = Inr False"
    by (simp add: crawl1_def)
  show ?thesis
    using scrape_page_rejects[OF c1, of "scraper_of crawl1" True "Got 200 home_page"] v1
      scrape_page_rejects[OF c2, of "scraper_of crawl1" True "Got 200 home_page"] v2
    by blast
qed

theorem scrape_page_failure_witness:
  "scrape_page (scraper_of crawl2) ''https://ex.com/missing'' True (Got 404 home_page) =
     Inr ([], None, scraper_of crawl3) \<and>
   scrape_page (scraper_of crawl3) ''https://ex.com/missing'' True (Got 200 home_page) =
     Inr ([], None, scraper_of crawl3)"
proof -
  have nv: "''https://ex.com/missing'' \<notin> visited_urls (scraper_of crawl2)" by (simp add: crawl2_def)
  have v: "is_valid_url (base_url (scraper_of crawl2)) ''https://ex.com/missing'' = Inr True"
    by (simp add: crawl2_def site_urls)
  have o: "Got 404 home_page = Raised \<or> (\<exists>status sp. Got 404 home_page = Got status sp \<and> status \<noteq> 200) \<or>
         (\<exists>sp e. Got 404 home_page = Got 200 sp \<and>
            (get_page_type ''https://ex.com/missing'' sp = Inl e \<or>
             collect_links (base_url (scraper_of crawl2)) (anchors sp) = Inl e))"
    by simp
  have e: "scraper_of crawl2\<lparr>visited_urls := insert ''https://ex.com/missing'' (visited_urls (scraper_of crawl2))\<rparr>
      = scraper_of crawl3"
    by (simp add: crawl2_def crawl3_def)
  from scrape_page_failure[OF site_urls(3) nv v o] show ?thesis unfolding e by blast
qed
















































end
